theory Spec2Isabelle
  imports Main
begin

text \<open>
  A shallow embedding of the state engine of the planets browser: the class \<open>State\<close> with
  its memoized portions, and the \<open>PlanetsStoreService\<close> that takes events (\<open>search\<close>,
  \<open>newPage\<close>, \<open>changePageSize\<close>), the pair that \<open>ResultsComponent\<close> and
  \<open>SettingsComponent\<close> call.  The repository also holds an older pair, a \<open>State\<close> that
  builds the observable of its successor itself and a store service with a single
  \<open>update\<close> method; it has the same constructor, the same \<open>switchMap\<close>, the same index
  arithmetic, the same clamp of the page and the same rejection of actions on an error or
  initial state, and its error state is a fresh \<open>State\<close> with the default page size.
\<close>

section \<open>Numbers\<close>

text \<open>
  The TypeScript sources compute with JavaScript numbers.  Page sizes, page numbers, counts
  and portion indices are integers, and they are modelled as \<^typ>\<open>int\<close>; the model is exact
  as long as every intermediate value stays below \<open>2^53\<close> in magnitude, where the double
  arithmetic of \<open>*\<close>, \<open>-\<close>, \<open>Math.floor(a / b)\<close> and \<open>Math.ceil(a / b)\<close> is exact.
  A field that may hold \<open>null\<close> is an \<^typ>\<open>int option\<close>; arithmetic coerces \<open>null\<close> to
  \<open>0\<close>, while \<open>null == 0\<close> and \<open>null > 0\<close> are both false.  (\<open>SettingsComponent\<close> passes
  the page size as the string of a number; \<open>*\<close> and \<open>/\<close> coerce it to that number.)
\<close>

definition toNumber :: "int option \<Rightarrow> int" where
  "toNumber v = (case v of None \<Rightarrow> 0 | Some n \<Rightarrow> n)"

text \<open>The value of \<open>Math.ceil(a / b)\<close>: a division by zero gives an infinity or \<open>NaN\<close>.\<close>

datatype number = Fin int | PosInf | NegInf | NaN

definition ceilDiv :: "int \<Rightarrow> int \<Rightarrow> number" where
  "ceilDiv a b =
     (if b = 0 then (if 0 < a then PosInf else if a < 0 then NegInf else NaN)
      else Fin (- ((- a) div b)))"

text \<open>The comparison \<open>p > n\<close> of an integer with such a value.\<close>

fun gt :: "int \<Rightarrow> number \<Rightarrow> bool" where
  "gt p (Fin n) = (n < p)"
| "gt p PosInf = False"
| "gt p NegInf = True"
| "gt p NaN = False"

text \<open>\<open>xs.slice(a, b)\<close>: a negative bound counts from the end, bounds are clipped.\<close>

definition slice :: "'a list \<Rightarrow> int \<Rightarrow> int \<Rightarrow> 'a list" where
  "slice xs a b =
     (let n = int (length xs);
          from = (if a < 0 then max (n + a) 0 else min a n);
          to = (if b < 0 then max (n + b) 0 else min b n)
      in take (nat (to - from)) (drop (nat from) xs))"

text \<open>
  \<open>new Array(n)\<close> throws a RangeError unless \<open>n\<close> is an integer in \<open>[0, 2^32 - 1]\<close>;
  the array indices are the integers in \<open>[0, 2^32 - 2]\<close>.
\<close>

definition validArrayLength :: "int \<Rightarrow> bool" where
  "validArrayLength n = (0 \<le> n \<and> n \<le> 4294967295)"

definition arrayIndex :: "int \<Rightarrow> bool" where
  "arrayIndex i = (0 \<le> i \<and> i < 4294967295)"


section \<open>The data model\<close>

text \<open>
  Modelled from the spec: the \<open>Planet\<close> interface (\<open>models/Planet\<close>) is not among the sources.
  The engine passes planets through without looking into them, so a planet is represented
  by its \<open>url\<close>.
\<close>

type_synonym Planet = string

text \<open>\<open>models/PlanetsPortion\<close>: one server-side page of at most ten planets.\<close>

record PlanetsPortion =
  count :: int
  "next" :: "string option"
  previous :: "string option"
  results :: "Planet list"

text \<open>
  Class \<open>State\<close> (the variant with \<open>memoizedPortions\<close>).  The sparse array
  \<open>memoizedPortions\<close> is a map from indices to portions; a hole (\<open>undefined\<close>) is \<open>None\<close>.
\<close>

record State =
  pageSize :: int
  searchTerm :: "string option"
  page :: "int option"
  count :: "int option"
  error :: bool
  initial :: bool
  memoizedPortions :: "int \<rightharpoonup> Planet list"

text \<open>What the methods of \<open>State\<close> and the services throw.\<close>

datatype exn =
  CountMustBePositive
  | MemoizedPortionsIncomplete
  | InvalidArrayLength

definition pagesCount :: "State \<Rightarrow> number" where
  "pagesCount s = ceilDiv (toNumber (count s)) (pageSize s)"

definition portionsCount :: "State \<Rightarrow> int" where
  "portionsCount s = - ((- toNumber (count s)) div 10)"

definition begIndex :: "State \<Rightarrow> exn + int" where
  "begIndex s =
     (if count s = Some 0 then Inl CountMustBePositive
      else Inr (pageSize s * (toNumber (page s) - 1)))"

definition endIndex :: "State \<Rightarrow> exn + int" where
  "endIndex s =
     (if count s = Some 0 then Inl CountMustBePositive
      else Inr (min (pageSize s * toNumber (page s)) (toNumber (count s))))"

definition begPortionIndex :: "State \<Rightarrow> exn + int" where
  "begPortionIndex s =
     (if count s = Some 0 then Inl CountMustBePositive
      else case begIndex s of Inl x \<Rightarrow> Inl x | Inr b \<Rightarrow> Inr (b div 10 + 1))"

definition endPortionIndex :: "State \<Rightarrow> exn + int" where
  "endPortionIndex s =
     (if count s = Some 0 then Inl CountMustBePositive
      else case endIndex s of Inl x \<Rightarrow> Inl x | Inr e \<Rightarrow> Inr ((e - 1) div 10 + 1))"

text \<open>
  The loop of \<open>planetList\<close> over the portion indices: it throws at the first hole and
  concatenates the portions otherwise.
\<close>

fun concatPortions :: "(int \<rightharpoonup> Planet list) \<Rightarrow> int list \<Rightarrow> Planet list \<Rightarrow> exn + Planet list" where
  "concatPortions m [] planetList = Inr planetList"
| "concatPortions m (i # is) planetList =
     (case m i of
        None \<Rightarrow> Inl MemoizedPortionsIncomplete
      | Some portion \<Rightarrow> concatPortions m is (planetList @ portion))"

definition planetList :: "State \<Rightarrow> exn + Planet list" where
  "planetList s =
     (if count s = Some 0 then Inr []
      else (case begPortionIndex s of Inl x \<Rightarrow> Inl x | Inr bp \<Rightarrow>
           (case endPortionIndex s of Inl x \<Rightarrow> Inl x | Inr ep \<Rightarrow>
           (case concatPortions (memoizedPortions s) [bp..ep] [] of Inl x \<Rightarrow> Inl x | Inr pl \<Rightarrow>
           (case begIndex s of Inl x \<Rightarrow> Inl x | Inr b \<Rightarrow>
           (case endIndex s of Inl x \<Rightarrow> Inl x | Inr e \<Rightarrow>
              Inr (slice pl (b - 10 * (bp - 1)) (e - 10 * (bp - 1)))))))))"

definition resetMemoizedPortions :: "State \<Rightarrow> exn + State" where
  "resetMemoizedPortions s =
     (if validArrayLength (portionsCount s + 1)
      then Inr (s\<lparr>memoizedPortions := Map.empty\<rparr>)
      else Inl InvalidArrayLength)"

text \<open>The constructor of \<open>State\<close>: it assigns the six fields and resets the portions.\<close>

definition newState :: "int \<Rightarrow> string option \<Rightarrow> int option \<Rightarrow> int option \<Rightarrow> bool \<Rightarrow> bool \<Rightarrow> exn + State" where
  "newState ps st p c err ini =
     resetMemoizedPortions
       \<lparr>pageSize = ps, searchTerm = st, page = p, count = c, error = err, initial = ini,
        memoizedPortions = Map.empty\<rparr>"

text \<open>
  \<open>copyOf\<close>: a new \<open>State\<close> with the same fields and the spread \<open>[...memoizedPortions]\<close>,
  which copies the elements at array indices (and nothing stored under another key).
\<close>

definition spread :: "(int \<rightharpoonup> 'a) \<Rightarrow> (int \<rightharpoonup> 'a)" where
  "spread m = (\<lambda>i. if arrayIndex i then m i else None)"

definition copyOf :: "State \<Rightarrow> exn + State" where
  "copyOf s =
     (case newState (pageSize s) (searchTerm s) (page s) (count s) (error s) (initial s) of
        Inl x \<Rightarrow> Inl x
      | Inr newSt \<Rightarrow> Inr (newSt\<lparr>memoizedPortions := spread (memoizedPortions s)\<rparr>))"


section \<open>The store service\<close>

text \<open>
  \<open>PlanetsStoreService\<close>, the variant that takes events.  An event carries the action with
  its payload and the state the caller passes in.
\<close>

datatype Action =
  SEARCH string
  | NEW_PAGE int
  | CHANGE_PAGE_SIZE int

record Event =
  action :: Action
  state :: State

text \<open>
  The observables of a new state that the service builds, by what they wait for:
  \<^item> \<open>Of s\<close> is \<open>of(s)\<close>, which emits \<open>s\<close> as soon as it is subscribed;
  \<^item> \<open>SearchPipe s term\<close> is the pipe of \<open>__search\<close>: the request of portion 1 for \<open>term\<close>,
    followed by \<open>mergeMap\<close> and \<open>catchError\<close>;
  \<^item> \<open>ForkJoinPipe s is\<close> is the pipe of \<open>makeNewStateObservable\<close>: the \<open>forkJoin\<close> of the
    requests of the portions \<open>is\<close>, followed by \<open>map\<close> and \<open>catchError\<close>.
\<close>

datatype Observable =
  Of State
  | SearchPipe State string
  | ForkJoinPipe State "int list"

definition initialState :: State where
  "initialState =
     \<lparr>pageSize = 25, searchTerm = None, page = None, count = None, error = False,
      initial = True, memoizedPortions = Map.empty\<rparr>"

text \<open>
  \<open>errorStateObservable\<close>: a copy of the initial state with \<open>error\<close> set.  The copy of the
  initial state cannot throw (lemma \<open>copyOf_initialState\<close> below).
\<close>

definition errorStateObservable :: Observable where
  "errorStateObservable =
     (case copyOf initialState of
        Inl x \<Rightarrow> Of initialState
      | Inr errState \<Rightarrow> Of (errState\<lparr>error := True\<rparr>))"

text \<open>
  \<open>makeNewStateObservable\<close>: the portions of the page that \<open>memoizedPortions\<close> lacks are
  requested; with none lacking, or with a count of zero, the state is returned as it is.
\<close>

definition portionIndexes :: "State \<Rightarrow> int \<Rightarrow> int \<Rightarrow> int list" where
  "portionIndexes baseState bp ep = filter (\<lambda>i. memoizedPortions baseState i = None) [bp..ep]"

definition makeNewStateObservable :: "State \<Rightarrow> exn + Observable" where
  "makeNewStateObservable baseState =
     (if count baseState = Some 0 then Inr (Of baseState)
      else (case begPortionIndex baseState of Inl x \<Rightarrow> Inl x | Inr bp \<Rightarrow>
           (case endPortionIndex baseState of Inl x \<Rightarrow> Inl x | Inr ep \<Rightarrow>
              (if portionIndexes baseState bp ep = [] then Inr (Of baseState)
               else Inr (ForkJoinPipe baseState (portionIndexes baseState bp ep))))))"

text \<open>
  The answers of the server to the requests of one observable, by portion index: \<open>None\<close>
  is a failed request.  \<open>forkJoin\<close> fails as soon as one request fails; when all succeed,
  \<open>map\<close> stores each portion's results under its index.
\<close>

type_synonym responses = "int \<Rightarrow> PlanetsPortion option"

fun storePortions :: "State \<Rightarrow> int list \<Rightarrow> responses \<Rightarrow> State option" where
  "storePortions baseState [] r = Some baseState"
| "storePortions baseState (index # is) r =
     (case r index of
        None \<Rightarrow> None
      | Some portion \<Rightarrow>
          storePortions
            (baseState\<lparr>memoizedPortions := (memoizedPortions baseState)(index \<mapsto> results portion)\<rparr>)
            is r)"

definition forkJoinSettled :: "State \<Rightarrow> int list \<Rightarrow> responses \<Rightarrow> Observable" where
  "forkJoinSettled baseState is r =
     (case storePortions baseState is r of
        None \<Rightarrow> errorStateObservable
      | Some s \<Rightarrow> Of s)"

text \<open>
  The private methods \<open>__search\<close>, \<open>__newPage\<close> and \<open>__changePageSize\<close> are \<open>priv_search\<close>,
  \<open>priv_newPage\<close> and \<open>priv_changePageSize\<close> here.

  \<open>__search\<close>: the two flags are cleared at once, then portion 1 is requested.  The body
  of \<open>mergeMap\<close> runs when the portion arrives; what it throws, and a failed request, are
  turned into the error state by \<open>catchError\<close>.
\<close>

definition priv_search :: "State \<Rightarrow> string \<Rightarrow> Observable" where
  "priv_search st searchTerm' = SearchPipe (st\<lparr>error := False, initial := False\<rparr>) searchTerm'"

definition searchMergeMap :: "State \<Rightarrow> string \<Rightarrow> PlanetsPortion \<Rightarrow> exn + Observable" where
  "searchMergeMap st searchTerm' portion =
     (case resetMemoizedPortions
             (st\<lparr>searchTerm := Some searchTerm', page := Some 1,
                 count := Some (PlanetsPortion.count portion)\<rparr>) of
        Inl x \<Rightarrow> Inl x
      | Inr st1 \<Rightarrow>
          makeNewStateObservable
            (if 0 < PlanetsPortion.count portion
             then st1\<lparr>memoizedPortions := (memoizedPortions st1)(1 \<mapsto> results portion)\<rparr>
             else st1))"

definition searchSettled :: "State \<Rightarrow> string \<Rightarrow> responses \<Rightarrow> Observable" where
  "searchSettled st searchTerm' r =
     (case r 1 of
        None \<Rightarrow> errorStateObservable
      | Some portion \<Rightarrow>
          (case searchMergeMap st searchTerm' portion of
             Inl x \<Rightarrow> errorStateObservable
           | Inr obs \<Rightarrow> obs))"

definition priv_newPage :: "State \<Rightarrow> int \<Rightarrow> exn + Observable" where
  "priv_newPage st page' =
     (if error st \<or> initial st then Inr errorStateObservable
      else makeNewStateObservable
             (st\<lparr>page := Some (if gt page' (pagesCount st) then 1 else page')\<rparr>))"

definition priv_changePageSize :: "State \<Rightarrow> int \<Rightarrow> exn + Observable" where
  "priv_changePageSize st pageSize' =
     (if error st \<or> initial st then Inr errorStateObservable
      else makeNewStateObservable (st\<lparr>pageSize := pageSize', page := Some 1\<rparr>))"

text \<open>The function given to \<open>switchMap\<close> in \<open>initEventListenerSubscription\<close>.\<close>

definition project :: "Event \<Rightarrow> exn + Observable" where
  "project event =
     (case copyOf (state event) of
        Inl x \<Rightarrow> Inl x
      | Inr st \<Rightarrow>
          (case action event of
             SEARCH payload \<Rightarrow> Inr (priv_search st payload)
           | NEW_PAGE payload \<Rightarrow> priv_newPage st payload
           | CHANGE_PAGE_SIZE payload \<Rightarrow> priv_changePageSize st payload))"


text \<open>
  The service object.  \<open>stateS\<close> lists every value the subject \<open>state$\<close> has emitted, oldest
  first, so its last element is the current state.  \<open>constructorSub\<close> is the constructor's
  subscription to its own search while that search waits; \<open>listening\<close> says that
  \<open>eventListener$\<close> has its subscriber (a plain subject drops what is emitted before);
  \<open>innerSub\<close> is the one inner subscription of \<open>switchMap\<close> while it waits.  \<open>requests\<close> logs
  the GET requests sent through \<open>planetsService.getPlanetsPortion\<close>, which in this variant
  sends one request per subscription, as (page, search) pairs.
\<close>

record PlanetsStoreService =
  stateS :: "State list"
  constructorSub :: "Observable option"
  listening :: bool
  innerSub :: "Observable option"
  requests :: "(int \<times> string option) list"

text \<open>The requests an observable sends when it is subscribed.\<close>

fun requestsOf :: "Observable \<Rightarrow> (int \<times> string option) list" where
  "requestsOf (Of s) = []"
| "requestsOf (SearchPipe st searchTerm') = [(1, Some searchTerm')]"
| "requestsOf (ForkJoinPipe baseState is) = map (\<lambda>i. (i, searchTerm baseState)) is"

text \<open>
  The subscriber of the constructor: \<open>state$.next(state)\<close>, then
  \<open>initEventListenerSubscription()\<close>.
\<close>

fun subscribeConstructor :: "Observable \<Rightarrow> PlanetsStoreService \<Rightarrow> PlanetsStoreService" where
  "subscribeConstructor (Of s) svc =
     svc\<lparr>stateS := stateS svc @ [s], constructorSub := None, listening := True\<rparr>"
| "subscribeConstructor obs svc =
     svc\<lparr>constructorSub := Some obs, requests := requests svc @ requestsOf obs\<rparr>"

text \<open>\<open>switchMap\<close> subscribing to the observable of its project function; \<open>tap\<close> emits the state.\<close>

fun subscribeInner :: "Observable \<Rightarrow> PlanetsStoreService \<Rightarrow> PlanetsStoreService" where
  "subscribeInner (Of s) svc = svc\<lparr>stateS := stateS svc @ [s], innerSub := None\<rparr>"
| "subscribeInner obs svc =
     svc\<lparr>innerSub := Some obs, requests := requests svc @ requestsOf obs\<rparr>"

definition constructor :: PlanetsStoreService where
  "constructor =
     (let svc = \<lparr>stateS = [initialState], constructorSub = None, listening = False,
                  innerSub = None, requests = []\<rparr>
      in case copyOf initialState of
           Inl x \<Rightarrow> svc
         | Inr st \<Rightarrow> subscribeConstructor (priv_search st []) svc)"

text \<open>
  \<open>eventListener$.next(event)\<close>.  Without a subscriber the event is lost.  Otherwise
  \<open>switchMap\<close> unsubscribes from the observable it waits for, calls the project function and
  subscribes to the result; an exception of the project function ends the subscription.
\<close>

definition nextEvent :: "Event \<Rightarrow> PlanetsStoreService \<Rightarrow> PlanetsStoreService" where
  "nextEvent event svc =
     (if \<not> listening svc then svc
      else case project event of
             Inl x \<Rightarrow> svc\<lparr>listening := False, innerSub := None\<rparr>
           | Inr obs \<Rightarrow> subscribeInner obs (svc\<lparr>innerSub := None\<rparr>))"

definition search :: "string \<Rightarrow> State \<Rightarrow> PlanetsStoreService \<Rightarrow> PlanetsStoreService" where
  "search searchTerm' st = nextEvent \<lparr>action = SEARCH searchTerm', state = st\<rparr>"

definition newPage :: "int \<Rightarrow> State \<Rightarrow> PlanetsStoreService \<Rightarrow> PlanetsStoreService" where
  "newPage page' st = nextEvent \<lparr>action = NEW_PAGE page', state = st\<rparr>"

definition changePageSize :: "int \<Rightarrow> State \<Rightarrow> PlanetsStoreService \<Rightarrow> PlanetsStoreService" where
  "changePageSize pageSize' st = nextEvent \<lparr>action = CHANGE_PAGE_SIZE pageSize', state = st\<rparr>"

text \<open>
  The server answers the requests of the observable that waits: the observable goes on
  with the answers \<open>r\<close>, and what it becomes is subscribed in its place.  The requests of
  one \<open>forkJoin\<close> are answered together.  An observable that was unsubscribed gets no answer.
\<close>

fun settle :: "Observable \<Rightarrow> responses \<Rightarrow> Observable" where
  "settle (Of s) r = Of s"
| "settle (SearchPipe st searchTerm') r = searchSettled st searchTerm' r"
| "settle (ForkJoinPipe baseState is) r = forkJoinSettled baseState is r"

definition respond :: "responses \<Rightarrow> PlanetsStoreService \<Rightarrow> PlanetsStoreService" where
  "respond r svc =
     (case constructorSub svc of
        Some obs \<Rightarrow> subscribeConstructor (settle obs r) (svc\<lparr>constructorSub := None\<rparr>)
      | None \<Rightarrow>
          (case innerSub svc of
             Some obs \<Rightarrow> subscribeInner (settle obs r) (svc\<lparr>innerSub := None\<rparr>)
           | None \<Rightarrow> svc))"

text \<open>What happens to the service: a caller dispatches an event, or the server answers.\<close>

datatype Input = Dispatch Event | Respond responses

fun step :: "PlanetsStoreService \<Rightarrow> Input \<Rightarrow> PlanetsStoreService" where
  "step svc (Dispatch event) = nextEvent event svc"
| "step svc (Respond r) = respond r svc"

definition run :: "Input list \<Rightarrow> PlanetsStoreService \<Rightarrow> PlanetsStoreService" where
  "run inputs svc = foldl step svc inputs"

text \<open>
  The state an observable emits when it is subscribed on its own and the server answers
  with \<open>rs\<close>, one answer function per round of requests; \<open>None\<close> while it still waits.
\<close>

fun resolve :: "Observable \<Rightarrow> responses list \<Rightarrow> State option" where
  "resolve (Of s) rs = Some s"
| "resolve obs [] = None"
| "resolve obs (r # rs) = resolve (settle obs r) rs"



section \<open>Resolved states\<close>

text \<open>
  The first and the last portion of a state's page, as \<open>begPortionIndex\<close> and
  \<open>endPortionIndex\<close> compute them when the count is not zero.  A state is resolved when
  its count is zero or every portion of its page is memoized; it is publishable when it
  is an error state, the initial state or resolved.  \<open>obsOk\<close> says that an observable can
  only emit publishable states: a \<open>forkJoin\<close> requests every portion its state lacks.
\<close>

definition loPortion :: "State \<Rightarrow> int" where
  "loPortion s = pageSize s * (toNumber (page s) - 1) div 10 + 1"

definition hiPortion :: "State \<Rightarrow> int" where
  "hiPortion s = (min (pageSize s * toNumber (page s)) (toNumber (count s)) - 1) div 10 + 1"

definition resolved :: "State \<Rightarrow> bool" where
  "resolved s = (count s = Some 0 \<or> 
        (\<forall>i. loPortion s \<le> i \<and> i \<le> hiPortion s \<longrightarrow> memoizedPortions s i \<noteq> None))"

definition publishable :: "State \<Rightarrow> bool" where
  "publishable s = (error s \<or> initial s \<or> resolved s)"

fun obsOk :: "Observable \<Rightarrow> bool" where
  "obsOk (Of s) = publishable s"
| "obsOk (SearchPipe st t) = True"
| "obsOk (ForkJoinPipe b is) =
     (count b \<noteq> Some 0
      \<and> (\<forall>i. loPortion b \<le> i \<and> i \<le> hiPortion b
             \<longrightarrow> memoizedPortions b i \<noteq> None \<or> i \<in> set is))"

definition svcOk :: "PlanetsStoreService \<Rightarrow> bool" where
  "svcOk svc = ((\<forall>s \<in> set (stateS svc). publishable s)
      \<and> (\<forall>obs. constructorSub svc = Some obs \<longrightarrow> obsOk obs)
      \<and> (\<forall>obs. innerSub svc = Some obs \<longrightarrow> obsOk obs))"


text \<open>
  The requests an observable sends from its subscription on while the server answers
  with \<open>rs\<close>.
\<close>

fun requestsDuring :: "Observable \<Rightarrow> responses list \<Rightarrow> (int \<times> string option) list" where
  "requestsDuring obs [] = requestsOf obs"
| "requestsDuring obs (r # rs) = requestsOf obs @ requestsDuring (settle obs r) rs"

section \<open>Example data\<close>

text \<open>A catalogue of 23 planets, browsed ten to a page, with nothing memoized yet.\<close>

definition page2of23 :: State where
  "page2of23 =
     \<lparr>pageSize = 10, searchTerm = Some ''t'', page = Some 2, count = Some 23, error = False,
      initial = False, memoizedPortions = Map.empty\<rparr>"


text \<open>
  A server with three planets in all, and the service once its constructor's search of
  the empty term has been answered by it.  \<open>firstState\<close> is the state published then;
  \<open>resizedSvc\<close> is the service after a caller that holds \<open>firstState\<close> has changed the page
  size to 2.
\<close>

definition threePlanets :: responses where
  "threePlanets =
     (\<lambda>i. if i = 1
          then Some \<lparr>PlanetsPortion.count = 3, next = None, previous = None,
                     results = [''Alderaan'', ''Hoth'', ''Naboo'']\<rparr>
          else None)"

definition bootedSvc :: PlanetsStoreService where
  "bootedSvc = run [Respond threePlanets] constructor"

definition firstState :: State where
  "firstState = last (stateS bootedSvc)"

definition resizedSvc :: PlanetsStoreService where
  "resizedSvc = changePageSize 2 firstState bootedSvc"


text \<open>
  A server with sixty planets.  \<open>browsingSvc\<close> is the service once the constructor's search
  has its three portions of the first page of 25, \<open>browsingState\<close> the state published
  then, and \<open>page2PendingSvc\<close> the service after a caller has asked for page 2, whose
  portions 4 and 5 are still to come.
\<close>

definition sixtyPlanets :: responses where
  "sixtyPlanets =
     (\<lambda>i. if 1 \<le> i \<and> i \<le> 6
          then Some \<lparr>PlanetsPortion.count = 60, next = None, previous = None,
                     results = replicate 10 ''planet''\<rparr>
          else None)"

definition browsingSvc :: PlanetsStoreService where
  "browsingSvc = run [Respond sixtyPlanets, Respond sixtyPlanets] constructor"

definition browsingState :: State where
  "browsingState = last (stateS browsingSvc)"

definition page2PendingSvc :: PlanetsStoreService where
  "page2PendingSvc = newPage 2 browsingState browsingSvc"


text \<open>A server that knows one planet for the term searched, and one that fails.\<close>

definition serverDown :: responses where
  "serverDown = (\<lambda>i. None)"


definition onePlanet :: responses where
  "onePlanet =
     (\<lambda>i. if i = 1
          then Some \<lparr>PlanetsPortion.count = 1, next = None, previous = None,
                     results = [''Xandar'']\<rparr>
          else None)"


section \<open>Index arithmetic\<close>

lemma page_below_count:
  fixes ps p c :: int
  assumes "0 < ps" and "p \<le> - ((- c) div ps)"
  shows "ps * (p - 1) < c"
proof -
  define q where "q = (- c) div ps"
  have q: "q \<le> - p" using assms by (simp add: q_def)
  have "- c = ps * q + (- c) mod ps" by (simp add: q_def)
  moreover have "(- c) mod ps < ps" using assms by simp
  moreover have "ps * q \<le> ps * (- p)"
    by (rule mult_left_mono) (use q assms in simp_all)
  ultimately have "- c < ps * (- p) + ps" by linarith
  then show ?thesis by (simp add: algebra_simps)
qed

lemma ceil10_mono:
  fixes e c :: int
  assumes "e \<le> c"
  shows "(e - 1) div 10 + 1 \<le> - ((- c) div 10)"
proof -
  have "(e - 1) div 10 \<le> (c - 1) div 10" using assms by (simp add: zdiv_mono1)
  moreover have "(c - 1) div 10 + 1 = - ((- c) div 10)" by linarith
  ultimately show ?thesis by linarith
qed

lemma index_fns:
  assumes "count s \<noteq> Some 0"
  shows "begIndex s = Inr (pageSize s * (toNumber (page s) - 1))"
    and "endIndex s = Inr (min (pageSize s * toNumber (page s)) (toNumber (count s)))"
    and "begPortionIndex s = Inr (pageSize s * (toNumber (page s) - 1) div 10 + 1)"
    and "endPortionIndex s
           = Inr ((min (pageSize s * toNumber (page s)) (toNumber (count s)) - 1) div 10 + 1)"
  using assms
  by (simp_all add: begIndex_def endIndex_def begPortionIndex_def endPortionIndex_def)

lemma requestsOf_makeNewStateObservable:
  assumes "begPortionIndex s = Inr bp" and "endPortionIndex s = Inr ep" and "count s \<noteq> Some 0"
  shows "\<exists>obs. makeNewStateObservable s = Inr obs
           \<and> map fst (requestsOf obs) = portionIndexes s bp ep"
  using assms by (simp add: makeNewStateObservable_def comp_def)

text \<open>
  C2 (portion mapping).  For a state with \<open>count > 0\<close>, \<open>pageSize > 0\<close> and a page between 1
  and \<open>pagesCount()\<close>: \<open>begIndex\<close> is \<open>pageSize * (page - 1)\<close>, \<open>endIndex\<close> is
  \<open>min(pageSize * page, count)\<close>, and the portions \<open>makeNewStateObservable\<close> resolves are
  those of the interval from \<open>floor(begIndex / 10) + 1\<close> to \<open>floor((endIndex - 1) / 10) + 1\<close>:
  it requests exactly the indices of the interval that are not memoized, so the requested
  and the memoized indices together are the interval.  The interval is not empty and lies
  within \<open>1 .. portionsCount()\<close>.
\<close>

theorem portion_mapping:
  assumes "count s = Some c" and "0 < c" and "0 < pageSize s"
    and "page s = Some p" and "1 \<le> p" and "\<not> gt p (pagesCount s)"
  shows "begIndex s = Inr (pageSize s * (p - 1))
       \<and> endIndex s = Inr (min (pageSize s * p) c)
       \<and> begPortionIndex s = Inr (pageSize s * (p - 1) div 10 + 1)
       \<and> endPortionIndex s = Inr ((min (pageSize s * p) c - 1) div 10 + 1)
       \<and> 1 \<le> pageSize s * (p - 1) div 10 + 1
       \<and> pageSize s * (p - 1) div 10 + 1 \<le> (min (pageSize s * p) c - 1) div 10 + 1
       \<and> (min (pageSize s * p) c - 1) div 10 + 1 \<le> portionsCount s
       \<and> (\<exists>obs. makeNewStateObservable s = Inr obs
            \<and> set (map fst (requestsOf obs))
                = {i. i \<in> {pageSize s * (p - 1) div 10 + 1 .. (min (pageSize s * p) c - 1) div 10 + 1}
                      \<and> memoizedPortions s i = None}
            \<and> set (map fst (requestsOf obs))
                \<union> {i. i \<in> {pageSize s * (p - 1) div 10 + 1 .. (min (pageSize s * p) c - 1) div 10 + 1}
                      \<and> memoizedPortions s i \<noteq> None}
                = {pageSize s * (p - 1) div 10 + 1 .. (min (pageSize s * p) c - 1) div 10 + 1})"
proof -
  let ?ps = "pageSize s"
  let ?lo = "?ps * (p - 1) div 10 + 1"
  let ?hi = "(min (?ps * p) c - 1) div 10 + 1"
  have nz: "count s \<noteq> Some 0" using assms by simp
  have tn: "toNumber (page s) = p" "toNumber (count s) = c"
    using assms by (simp_all add: toNumber_def)
  note ix = index_fns [OF nz, unfolded tn]
  have le: "p \<le> - ((- c) div ?ps)"
    using assms by (simp add: pagesCount_def ceilDiv_def toNumber_def)
  have below: "?ps * (p - 1) < c"
    using page_below_count [OF \<open>0 < ?ps\<close> le] .
  have nonneg: "0 \<le> ?ps * (p - 1)" using assms by simp
  have lo1: "1 \<le> ?lo" using nonneg by (simp add: pos_imp_zdiv_nonneg_iff)
  have "?ps * (p - 1) \<le> ?ps * p - 1" using assms by (simp add: algebra_simps)
  then have "?ps * (p - 1) \<le> min (?ps * p) c - 1" using below by simp
  then have lohi: "?lo \<le> ?hi" by (simp add: zdiv_mono1)
  have hi: "?hi \<le> portionsCount s"
    unfolding portionsCount_def tn by (rule ceil10_mono) simp
  obtain obs where obs: "makeNewStateObservable s = Inr obs"
    and req: "map fst (requestsOf obs) = portionIndexes s ?lo ?hi"
    using requestsOf_makeNewStateObservable [OF ix(3) ix(4) nz] by blast
  have fetched: "set (map fst (requestsOf obs))
                   = {i. i \<in> {?lo..?hi} \<and> memoizedPortions s i = None}"
    unfolding req by (auto simp: portionIndexes_def)
  have cover: "set (map fst (requestsOf obs))
                 \<union> {i. i \<in> {?lo..?hi} \<and> memoizedPortions s i \<noteq> None} = {?lo..?hi}"
    unfolding fetched by auto
  have "\<exists>obs. makeNewStateObservable s = Inr obs
          \<and> set (map fst (requestsOf obs)) = {i. i \<in> {?lo..?hi} \<and> memoizedPortions s i = None}
          \<and> set (map fst (requestsOf obs)) \<union> {i. i \<in> {?lo..?hi} \<and> memoizedPortions s i \<noteq> None}
              = {?lo..?hi}"
    using obs fetched cover by (intro exI [of _ obs] conjI)
  with ix lo1 lohi hi show ?thesis by (intro conjI)
qed

text \<open>Page 2 of 23 planets at ten to a page is portion 2 alone, and it is requested.\<close>

theorem portion_mapping_witness:
  "begIndex page2of23 = Inr 10 \<and> endIndex page2of23 = Inr 20
   \<and> begPortionIndex page2of23 = Inr 2 \<and> endPortionIndex page2of23 = Inr 2
   \<and> (\<exists>obs. makeNewStateObservable page2of23 = Inr obs
          \<and> set (map fst (requestsOf obs)) = {2})"
proof -
  have h: "count page2of23 = Some 23" "0 < (23::int)" "0 < pageSize page2of23"
    "page page2of23 = Some 2" "(1::int) \<le> 2" "\<not> gt 2 (pagesCount page2of23)"
    by (simp_all add: page2of23_def pagesCount_def ceilDiv_def toNumber_def)
  have m: "memoizedPortions page2of23 = Map.empty" by (simp add: page2of23_def)
  have ps: "pageSize page2of23 = 10" by (simp add: page2of23_def)
  show ?thesis using portion_mapping [OF h] by (simp add: m ps)
qed


section \<open>Only resolved states are published\<close>

lemma copyOf_initialState: "copyOf initialState = Inr initialState"
  by (simp add: copyOf_def newState_def resetMemoizedPortions_def initialState_def
      portionsCount_def toNumber_def validArrayLength_def spread_def)

lemma errorStateObservable_eq: "errorStateObservable = Of (initialState\<lparr>error := True\<rparr>)"
  by (simp add: errorStateObservable_def copyOf_initialState)

lemma obsOk_errorStateObservable: "obsOk errorStateObservable"
  by (simp add: errorStateObservable_eq publishable_def)

lemma portion_bounds:
  assumes "count s \<noteq> Some 0"
  shows "begPortionIndex s = Inr (loPortion s)" and "endPortionIndex s = Inr (hiPortion s)"
  using index_fns(3,4) [OF assms] by (simp_all add: loPortion_def hiPortion_def)

lemma obsOk_makeNewStateObservable:
  assumes "makeNewStateObservable s = Inr obs"
  shows "obsOk obs"
proof (cases "count s = Some 0")
  case True
  then show ?thesis using assms by (auto simp: makeNewStateObservable_def publishable_def resolved_def)
next
  case False
  note pb = portion_bounds [OF False]
  show ?thesis
  proof (cases "portionIndexes s (loPortion s) (hiPortion s) = []")
    case True
    then have "\<forall>i. loPortion s \<le> i \<and> i \<le> hiPortion s \<longrightarrow> memoizedPortions s i \<noteq> None"
      by (auto simp: portionIndexes_def filter_empty_conv)
    moreover have "obs = Of s" using assms False True by (simp add: makeNewStateObservable_def pb)
    ultimately show ?thesis by (simp add: publishable_def resolved_def)
  next
    case ne: False
    have "obs = ForkJoinPipe s (portionIndexes s (loPortion s) (hiPortion s))"
      using assms False ne by (simp add: makeNewStateObservable_def pb)
    then show ?thesis using False by (auto simp: portionIndexes_def)
  qed
qed

lemma storePortions_fields:
  assumes "storePortions b is r = Some s'"
  shows "pageSize s' = pageSize b \<and> page s' = page b \<and> count s' = count b
       \<and> searchTerm s' = searchTerm b \<and> error s' = error b \<and> initial s' = initial b"
  using assms by (induction "is" arbitrary: b) (auto split: option.splits)

lemma storePortions_memo:
  assumes "storePortions b is r = Some s'" and "memoizedPortions b i \<noteq> None \<or> i \<in> set is"
  shows "memoizedPortions s' i \<noteq> None"
  using assms
proof (induction "is" arbitrary: b)
  case Nil
  then show ?case by simp
next
  case (Cons j js)
  then obtain p where p: "r j = Some p" by (auto split: option.splits)
  let ?b = "b\<lparr>memoizedPortions := (memoizedPortions b)(j \<mapsto> results p)\<rparr>"
  have "storePortions ?b js r = Some s'" using Cons.prems(1) p by simp
  moreover have "memoizedPortions ?b i \<noteq> None \<or> i \<in> set js" using Cons.prems(2) by auto
  ultimately show ?case by (rule Cons.IH)
qed

lemma obsOk_forkJoinSettled:
  assumes "obsOk (ForkJoinPipe b is)"
  shows "obsOk (forkJoinSettled b is r)"
proof (cases "storePortions b is r")
  case None
  then show ?thesis by (simp add: forkJoinSettled_def obsOk_errorStateObservable)
next
  case (Some s')
  note f = storePortions_fields [OF Some]
  have lo: "loPortion s' = loPortion b" and hi: "hiPortion s' = hiPortion b"
    using f by (simp_all add: loPortion_def hiPortion_def)
  have "\<forall>i. loPortion b \<le> i \<and> i \<le> hiPortion b \<longrightarrow> memoizedPortions s' i \<noteq> None"
    using assms storePortions_memo [OF Some] by auto
  then have "resolved s'" by (simp add: resolved_def lo hi)
  then show ?thesis using Some by (simp add: forkJoinSettled_def publishable_def)
qed

lemma obsOk_searchSettled: "obsOk (searchSettled st t r)"
  by (auto simp: searchSettled_def searchMergeMap_def obsOk_errorStateObservable
      intro: obsOk_makeNewStateObservable split: option.splits sum.splits)

lemma obsOk_settle: "obsOk obs \<Longrightarrow> obsOk (settle obs r)"
  by (cases obs) (simp_all add: obsOk_forkJoinSettled obsOk_searchSettled)

lemma obsOk_project: "project event = Inr obs \<Longrightarrow> obsOk obs"
  by (auto simp: project_def priv_search_def priv_newPage_def priv_changePageSize_def
      obsOk_errorStateObservable intro: obsOk_makeNewStateObservable
      split: sum.splits Action.splits if_splits)

lemma svcOk_subscribeInner:
  assumes "svcOk svc" and "obsOk obs"
  shows "svcOk (subscribeInner obs (svc\<lparr>innerSub := None\<rparr>))"
  using assms by (cases obs) (auto simp: svcOk_def)

lemma svcOk_subscribeConstructor:
  assumes "svcOk svc" and "obsOk obs"
  shows "svcOk (subscribeConstructor obs (svc\<lparr>constructorSub := None\<rparr>))"
  using assms by (cases obs) (auto simp: svcOk_def)

lemma svcOk_nextEvent: "svcOk svc \<Longrightarrow> svcOk (nextEvent event svc)"
proof (cases "project event")
  case (Inl x)
  assume "svcOk svc"
  then show ?thesis using Inl by (auto simp: nextEvent_def svcOk_def)
next
  case (Inr obs)
  assume "svcOk svc"
  then show ?thesis
    using Inr svcOk_subscribeInner [OF _ obsOk_project [OF Inr]] by (simp add: nextEvent_def)
qed

lemma svcOk_respond:
  assumes "svcOk svc"
  shows "svcOk (respond r svc)"
proof (cases "constructorSub svc")
  case (Some obs)
  then have "obsOk (settle obs r)" using assms by (simp add: svcOk_def obsOk_settle)
  then show ?thesis using Some assms by (simp add: respond_def svcOk_subscribeConstructor)
next
  case None
  show ?thesis
  proof (cases "innerSub svc")
    case (Some obs)
    then have "obsOk (settle obs r)" using assms by (simp add: svcOk_def obsOk_settle)
    then show ?thesis using Some None assms by (simp add: respond_def svcOk_subscribeInner)
  next
    case inner: None
    then show ?thesis using None assms by (simp add: respond_def)
  qed
qed

lemma svcOk_step: "svcOk svc \<Longrightarrow> svcOk (step svc input)"
  by (cases input) (simp_all add: svcOk_nextEvent svcOk_respond)

lemma svcOk_run: "svcOk svc \<Longrightarrow> svcOk (run inputs svc)"
  unfolding run_def by (induction inputs arbitrary: svc) (simp_all add: svcOk_step)

lemma constructor_eq:
  "constructor =
     \<lparr>stateS = [initialState],
      constructorSub = Some (SearchPipe (initialState\<lparr>error := False, initial := False\<rparr>) []),
      listening = False, innerSub = None, requests = [(1, Some [])]\<rparr>"
  by (simp add: constructor_def copyOf_initialState priv_search_def)

lemma svcOk_constructor: "svcOk constructor"
  by (simp add: constructor_eq svcOk_def publishable_def) (simp add: initialState_def)

lemma concatPortions_total:
  assumes "\<forall>i \<in> set is. m i \<noteq> None"
  shows "\<exists>pl. concatPortions m is acc = Inr pl"
  using assms by (induction "is" arbitrary: acc) auto

lemma planetList_resolved:
  assumes "resolved s"
  shows "\<exists>pl. planetList s = Inr pl"
proof (cases "count s = Some 0")
  case True
  then show ?thesis by (simp add: planetList_def)
next
  case False
  note pb = portion_bounds [OF False] and ix = index_fns(1,2) [OF False]
  have "\<forall>i \<in> set [loPortion s..hiPortion s]. memoizedPortions s i \<noteq> None"
    using assms False by (simp add: resolved_def)
  then obtain pl where "concatPortions (memoizedPortions s) [loPortion s..hiPortion s] [] = Inr pl"
    using concatPortions_total by blast
  then show ?thesis using False by (simp add: planetList_def pb ix)
qed

lemma bootedSvc_eq:
  "bootedSvc =
     \<lparr>stateS = [initialState,
        \<lparr>pageSize = 25, searchTerm = Some [], page = Some 1, count = Some 3, error = False,
         initial = False, memoizedPortions = [1 \<mapsto> [''Alderaan'', ''Hoth'', ''Naboo'']]\<rparr>],
      constructorSub = None, listening = True, innerSub = None, requests = [(1, Some [])]\<rparr>"
  by (simp add: bootedSvc_def threePlanets_def run_def respond_def constructor_eq
      searchSettled_def searchMergeMap_def resetMemoizedPortions_def portionsCount_def
      toNumber_def validArrayLength_def makeNewStateObservable_def begPortionIndex_def
      endPortionIndex_def begIndex_def endIndex_def portionIndexes_def initialState_def)

lemma firstState_eq:
  "firstState = \<lparr>pageSize = 25, searchTerm = Some [], page = Some 1, count = Some 3, error = False,
         initial = False, memoizedPortions = [1 \<mapsto> [''Alderaan'', ''Hoth'', ''Naboo'']]\<rparr>"
  by (simp add: firstState_def bootedSvc_eq)

text \<open>
  C4 (resolve before publish).  Whatever events are dispatched, with whatever states, and
  whatever the server answers: every state the service has emitted on \<open>state$\<close> that is
  neither an error state nor the initial state has every portion from \<open>begPortionIndex()\<close>
  to \<open>endPortionIndex()\<close> memoized, and \<open>planetList()\<close> returns a list for it (it does not
  throw).
\<close>

theorem resolve_before_publish:
  assumes "s \<in> set (stateS (run inputs constructor))" and "\<not> error s" and "\<not> initial s"
  shows "(\<exists>pl. planetList s = Inr pl)
       \<and> (\<forall>bp ep i. begPortionIndex s = Inr bp \<and> endPortionIndex s = Inr ep \<and> bp \<le> i \<and> i \<le> ep
             \<longrightarrow> memoizedPortions s i \<noteq> None)"
proof -
  have "svcOk (run inputs constructor)" by (rule svcOk_run [OF svcOk_constructor])
  then have "publishable s" using assms(1) by (simp add: svcOk_def)
  then have res: "resolved s" using assms(2,3) by (simp add: publishable_def)
  have "\<forall>bp ep i. begPortionIndex s = Inr bp \<and> endPortionIndex s = Inr ep \<and> bp \<le> i \<and> i \<le> ep
             \<longrightarrow> memoizedPortions s i \<noteq> None"
  proof (cases "count s = Some 0")
    case True
    then show ?thesis by (simp add: begPortionIndex_def)
  next
    case False
    then show ?thesis using res portion_bounds [OF False] by (simp add: resolved_def)
  qed
  then show ?thesis using planetList_resolved [OF res] by blast
qed

text \<open>The state published after the constructor's search of a three-planet server.\<close>

theorem resolve_before_publish_witness:
  "firstState \<in> set (stateS (run [Respond threePlanets] constructor))
   \<and> \<not> error firstState \<and> \<not> initial firstState
   \<and> planetList firstState = Inr [''Alderaan'', ''Hoth'', ''Naboo'']
   \<and> memoizedPortions firstState 1 \<noteq> None"
proof -
  have m: "firstState \<in> set (stateS (run [Respond threePlanets] constructor))"
    unfolding bootedSvc_def [symmetric] by (simp add: bootedSvc_eq firstState_eq)
  have e: "\<not> error firstState" "\<not> initial firstState" by (simp_all add: firstState_eq)
  have pl: "planetList firstState = Inr [''Alderaan'', ''Hoth'', ''Naboo'']"
    by (simp add: firstState_eq planetList_def begPortionIndex_def endPortionIndex_def
        begIndex_def endIndex_def toNumber_def slice_def)
  have b: "begPortionIndex firstState = Inr 1" "endPortionIndex firstState = Inr 1"
    by (simp_all add: firstState_eq begPortionIndex_def endPortionIndex_def
        begIndex_def endIndex_def toNumber_def)
  show ?thesis using resolve_before_publish [OF m e] m e pl b by auto
qed


section \<open>Evaluating the examples\<close>

lemma upto_from_1: "[1..n] = (if 1 \<le> n then 1 # [2..n] else [])"
  by (simp add: upto_rec1)

lemmas eval_defs = upto_from_1 run_def respond_def constructor_eq searchSettled_def searchMergeMap_def
  resetMemoizedPortions_def portionsCount_def toNumber_def validArrayLength_def
  makeNewStateObservable_def begPortionIndex_def endPortionIndex_def begIndex_def endIndex_def
  portionIndexes_def initialState_def forkJoinSettled_def nextEvent_def project_def copyOf_def
  newState_def spread_def arrayIndex_def priv_search_def priv_newPage_def priv_changePageSize_def
  pagesCount_def ceilDiv_def search_def newPage_def changePageSize_def errorStateObservable_eq

lemma browsingSvc_eq:
  "browsingSvc =
     \<lparr>stateS = [initialState,
        \<lparr>pageSize = 25, searchTerm = Some [], page = Some 1, count = Some 60, error = False,
         initial = False,
         memoizedPortions = [1 \<mapsto> replicate 10 ''planet'', 2 \<mapsto> replicate 10 ''planet'',
                             3 \<mapsto> replicate 10 ''planet'']\<rparr>],
      constructorSub = None, listening = True, innerSub = None,
      requests = [(1, Some []), (2, Some []), (3, Some [])]\<rparr>"
  by (simp add: browsingSvc_def sixtyPlanets_def eval_defs)

lemma browsingState_eq:
  "browsingState =
        \<lparr>pageSize = 25, searchTerm = Some [], page = Some 1, count = Some 60, error = False,
         initial = False,
         memoizedPortions = [1 \<mapsto> replicate 10 ''planet'', 2 \<mapsto> replicate 10 ''planet'',
                             3 \<mapsto> replicate 10 ''planet'']\<rparr>"
  by (simp add: browsingState_def browsingSvc_eq)

lemma page2PendingSvc_facts:
  "listening page2PendingSvc" "constructorSub page2PendingSvc = None"
  "\<exists>b. innerSub page2PendingSvc = Some (ForkJoinPipe b [4, 5]) \<and> page b = Some 2"
  "map page (stateS page2PendingSvc) = [None, Some 1]"
  by (simp_all add: page2PendingSvc_def browsingState_eq browsingSvc_eq eval_defs)


section \<open>Switching to the latest action\<close>

lemma run_Nil: "run [] svc = svc"
  by (simp add: run_def)

lemma run_Cons: "run (input # inputs) svc = run inputs (step svc input)"
  by (simp add: run_def)

lemma run_responses_idle:
  assumes "constructorSub svc = None" and "innerSub svc = None"
  shows "run (map Respond rs) svc = svc"
  using assms by (induction rs) (simp_all add: run_Nil run_Cons respond_def)

lemma stateS_subscribeInner_run:
  assumes "constructorSub svc = None"
  shows "stateS (run (map Respond rs) (subscribeInner obs (svc\<lparr>innerSub := None\<rparr>)))
           = stateS svc @ (case resolve obs rs of None \<Rightarrow> [] | Some s \<Rightarrow> [s])"
  using assms
proof (induction rs arbitrary: obs svc)
  case Nil
  then show ?case by (cases obs) (simp_all add: run_Nil)
next
  case (Cons r rs)
  show ?case
  proof (cases obs)
    case (Of s)
    have "run (map Respond (r # rs)) (svc\<lparr>stateS := stateS svc @ [s], innerSub := None\<rparr>)
            = svc\<lparr>stateS := stateS svc @ [s], innerSub := None\<rparr>"
      by (rule run_responses_idle) (simp_all add: Cons.prems)
    then show ?thesis using Of by simp
  next
    case (SearchPipe st t)
    let ?svc = "svc\<lparr>requests := requests svc @ requestsOf obs\<rparr>"
    have "stateS (run (map Respond rs) (subscribeInner (settle obs r) (?svc\<lparr>innerSub := None\<rparr>)))
            = stateS ?svc @ (case resolve (settle obs r) rs of None \<Rightarrow> [] | Some s \<Rightarrow> [s])"
      by (rule Cons.IH) (simp add: Cons.prems)
    then show ?thesis using SearchPipe Cons.prems by (simp add: run_Cons respond_def)
  next
    case (ForkJoinPipe b js)
    let ?svc = "svc\<lparr>requests := requests svc @ requestsOf obs\<rparr>"
    have "stateS (run (map Respond rs) (subscribeInner (settle obs r) (?svc\<lparr>innerSub := None\<rparr>)))
            = stateS ?svc @ (case resolve (settle obs r) rs of None \<Rightarrow> [] | Some s \<Rightarrow> [s])"
      by (rule Cons.IH) (simp add: Cons.prems)
    then show ?thesis using ForkJoinPipe Cons.prems by (simp add: run_Cons respond_def)
  qed
qed

text \<open>
  C1 (switch-latest).  Let the service listen and wait for the observable \<open>a1\<close> of an
  earlier action when the event \<open>a2\<close> is dispatched.  Then everything that follows is
  what it would be had nothing been waiting: \<open>a1\<close> is unsubscribed and no later emission
  depends on it.  And while no further event is dispatched, the only state added to
  \<open>state$\<close>, whatever the server answers, is the one the observable of \<open>a2\<close> emits, added
  once: the state of \<open>a1\<close> is never emitted, and the state of \<open>a2\<close> is the last one.
\<close>

theorem switch_latest:
  assumes "listening svc" and "constructorSub svc = None" and "innerSub svc = Some a1"
  shows "run inputs (nextEvent a2 svc) = run inputs (nextEvent a2 (svc\<lparr>innerSub := None\<rparr>))
       \<and> stateS (run (map Respond rs) (nextEvent a2 svc))
           = stateS svc @ (case project a2 of
                             Inl x \<Rightarrow> []
                           | Inr obs2 \<Rightarrow> (case resolve obs2 rs of None \<Rightarrow> [] | Some s \<Rightarrow> [s]))"
proof -
  have same: "nextEvent a2 svc = nextEvent a2 (svc\<lparr>innerSub := None\<rparr>)"
    using assms(1) by (simp add: nextEvent_def split: sum.splits)
  have pub: "stateS (run (map Respond rs) (nextEvent a2 svc))
           = stateS svc @ (case project a2 of
                             Inl x \<Rightarrow> []
                           | Inr obs2 \<Rightarrow> (case resolve obs2 rs of None \<Rightarrow> [] | Some s \<Rightarrow> [s]))"
  proof (cases "project a2")
    case (Inl x)
    have "run (map Respond rs) (svc\<lparr>listening := False, innerSub := None\<rparr>)
            = svc\<lparr>listening := False, innerSub := None\<rparr>"
      by (rule run_responses_idle) (simp_all add: assms)
    then show ?thesis using Inl assms(1) by (simp add: nextEvent_def)
  next
    case (Inr obs2)
    then show ?thesis
      using assms(1) stateS_subscribeInner_run [OF assms(2), of rs obs2]
      by (simp add: nextEvent_def)
  qed
  show ?thesis using same pub by simp
qed


text \<open>
  Page 2 is asked for and waits for portions 4 and 5; page 3 is asked for before they
  arrive.  After the server's answer the emitted states are the initial one, page 1 and
  page 3.
\<close>

theorem switch_latest_witness:
  "listening page2PendingSvc \<and> constructorSub page2PendingSvc = None
   \<and> (\<exists>b. innerSub page2PendingSvc = Some (ForkJoinPipe b [4, 5]) \<and> page b = Some 2)
   \<and> map page (stateS (run (map Respond [sixtyPlanets])
                     (nextEvent \<lparr>action = NEW_PAGE 3, state = browsingState\<rparr> page2PendingSvc)))
       = [None, Some 1, Some 3]"
proof -
  note f = page2PendingSvc_facts
  obtain b where b: "innerSub page2PendingSvc = Some (ForkJoinPipe b [4, 5])"
    using f(3) by blast
  have "\<exists>obs s. project \<lparr>action = NEW_PAGE 3, state = browsingState\<rparr> = Inr obs
           \<and> resolve obs [sixtyPlanets] = Some s \<and> page s = Some 3"
    by (simp add: browsingState_eq sixtyPlanets_def eval_defs)
  then obtain obs s where
    "project \<lparr>action = NEW_PAGE 3, state = browsingState\<rparr> = Inr obs"
    "resolve obs [sixtyPlanets] = Some s" "page s = Some 3"
    by blast
  then have "map page (stateS (run (map Respond [sixtyPlanets])
                     (nextEvent \<lparr>action = NEW_PAGE 3, state = browsingState\<rparr> page2PendingSvc)))
       = [None, Some 1, Some 3]"
    using switch_latest [OF f(1) f(2) b, of "[]" "\<lparr>action = NEW_PAGE 3, state = browsingState\<rparr>" "[sixtyPlanets]"] f(4)
    by simp
  then show ?thesis using f by simp
qed


section \<open>The state of the event decides\<close>

lemma firstState_facts:
  "pageSize firstState = 25" "page firstState = Some 1" "count firstState = Some 3"
  by (simp_all add: firstState_eq)

lemma resizedSvc_facts:
  "listening resizedSvc" "constructorSub resizedSvc = None" "innerSub resizedSvc = None"
  "length (stateS resizedSvc) = 3"
  "pageSize (last (stateS resizedSvc)) = 2" "page (last (stateS resizedSvc)) = Some 1"
  "count (last (stateS resizedSvc)) = Some 3"
  "\<not> error (last (stateS resizedSvc))" "\<not> initial (last (stateS resizedSvc))"
  by (simp_all add: resizedSvc_def firstState_eq bootedSvc_eq eval_defs)

text \<open>
  C3, as stated, fails.  A caller that still holds \<open>firstState\<close> (page size 25) after the
  page size was changed to 2 asks for page 2: the service emits a state with page size 25
  and page 1, derived from the state of the event.  From the state emitted last (page
  size 2) the same action gives page 2.
\<close>

theorem latest_state_counterexample:
  "pageSize (last (stateS resizedSvc)) = 2
   \<and> pageSize firstState = 25
   \<and> pageSize (last (stateS (newPage 2 firstState resizedSvc))) = 25
   \<and> page (last (stateS (newPage 2 firstState resizedSvc))) = Some 1
   \<and> pageSize (last (stateS (newPage 2 (last (stateS resizedSvc)) resizedSvc))) = 2
   \<and> page (last (stateS (newPage 2 (last (stateS resizedSvc)) resizedSvc))) = Some 2"
  by (simp add: resizedSvc_def firstState_eq bootedSvc_eq eval_defs)

lemma nextEvent_listening:
  assumes "listening svc"
  shows "nextEvent event svc =
           (case project event of
              Inl x \<Rightarrow> svc\<lparr>listening := False, innerSub := None\<rparr>
            | Inr obs \<Rightarrow> subscribeInner obs (svc\<lparr>innerSub := None\<rparr>))"
  using assms by (simp add: nextEvent_def)

lemma subscribeInner_effect:
  "stateS (subscribeInner obs svc) = stateS svc @ (case obs of Of s \<Rightarrow> [s] | _ \<Rightarrow> [])"
  "requests (subscribeInner obs svc) = requests svc @ requestsOf obs"
  "innerSub (subscribeInner obs svc) = (case obs of Of s \<Rightarrow> None | _ \<Rightarrow> Some obs)"
  "listening (subscribeInner obs svc) = listening svc"
  "constructorSub (subscribeInner obs svc) = constructorSub svc"
  by (cases obs; simp)+

text \<open>
  C3, amended.  The service derives the new state from the state carried by the event,
  the one the caller passes to \<open>search\<close>, \<open>newPage\<close> or \<open>changePageSize\<close>: what a listening
  service emits, requests and waits for after an event is the same whatever it has
  emitted before.
\<close>

theorem event_state_decides:
  assumes "listening svc1" and "listening svc2"
  shows "drop (length (stateS svc1)) (stateS (nextEvent event svc1))
           = drop (length (stateS svc2)) (stateS (nextEvent event svc2))
       \<and> drop (length (requests svc1)) (requests (nextEvent event svc1))
           = drop (length (requests svc2)) (requests (nextEvent event svc2))
       \<and> innerSub (nextEvent event svc1) = innerSub (nextEvent event svc2)
       \<and> listening (nextEvent event svc1) = listening (nextEvent event svc2)"
  using assms
  by (cases "project event") (simp_all add: nextEvent_listening subscribeInner_effect)

text \<open>The same stale event gives the same new state before and after the resize.\<close>

theorem event_state_decides_witness:
  "listening resizedSvc \<and> listening bootedSvc
   \<and> drop (length (stateS resizedSvc)) (stateS (newPage 2 firstState resizedSvc))
       = drop (length (stateS bootedSvc)) (stateS (newPage 2 firstState bootedSvc))
   \<and> map page (drop (length (stateS bootedSvc)) (stateS (newPage 2 firstState bootedSvc)))
       = [Some 1]"
proof -
  have l: "listening resizedSvc" "listening bootedSvc"
    by (simp_all add: resizedSvc_facts bootedSvc_eq)
  have "map page (drop (length (stateS bootedSvc)) (stateS (newPage 2 firstState bootedSvc)))
       = [Some 1]"
    by (simp add: firstState_eq bootedSvc_eq eval_defs)
  then show ?thesis
    using event_state_decides [OF l, of "\<lparr>action = NEW_PAGE 2, state = firstState\<rparr>"] l
    by (simp add: newPage_def)
qed


section \<open>Failed searches\<close>

lemma stateS_nextEvent_run:
  assumes "listening svc" and "constructorSub svc = None"
  shows "stateS (run (map Respond rs) (nextEvent event svc))
           = stateS svc @ (case project event of
                             Inl x \<Rightarrow> []
                           | Inr obs \<Rightarrow> (case resolve obs rs of None \<Rightarrow> [] | Some s \<Rightarrow> [s]))"
proof (cases "project event")
  case (Inl x)
  have "run (map Respond rs) (svc\<lparr>listening := False, innerSub := None\<rparr>)
          = svc\<lparr>listening := False, innerSub := None\<rparr>"
    by (rule run_responses_idle) (simp_all add: assms)
  then show ?thesis using Inl assms(1) by (simp add: nextEvent_def)
next
  case (Inr obs)
  then show ?thesis
    using assms(1) stateS_subscribeInner_run [OF assms(2), of rs obs]
    by (simp add: nextEvent_def)
qed

lemma project_search:
  assumes "copyOf st = Inr c"
  shows "project \<lparr>action = SEARCH t, state = st\<rparr>
           = Inr (SearchPipe (c\<lparr>error := False, initial := False\<rparr>) t)"
  using assms by (simp add: project_def priv_search_def)

lemma storePortions_fails:
  assumes "i \<in> set is" and "r i = None"
  shows "storePortions b is r = None"
  using assms by (induction "is" arbitrary: b) (auto split: option.splits)

text \<open>
  C5, as stated, fails.  A search on the state with page size 2 whose request fails emits
  an error state with page size 25.
\<close>

theorem search_failure_counterexample:
  "pageSize (last (stateS resizedSvc)) = 2
   \<and> error (last (stateS (respond serverDown (search ''x'' (last (stateS resizedSvc)) resizedSvc))))
   \<and> pageSize (last (stateS (respond serverDown (search ''x'' (last (stateS resizedSvc)) resizedSvc))))
       = 25"
  by (simp add: resizedSvc_def firstState_eq bootedSvc_eq serverDown_def eval_defs)

text \<open>
  C5, amended.  When the request of portion 1 fails, or the body of \<open>mergeMap\<close> throws, or
  one of the requests of the remaining portions fails, the search emits the error state:
  a copy of the initial state with \<open>error\<close> set, whose page size is the initial 25
  whatever the page size of the state the search was applied to.
\<close>

theorem search_failure:
  assumes "listening svc" and "constructorSub svc = None" and "copyOf st = Inr c"
    and "r 1 = None
         \<or> (\<exists>portion x. r 1 = Some portion
               \<and> searchMergeMap (c\<lparr>error := False, initial := False\<rparr>) t portion = Inl x)
         \<or> (\<exists>portion b is i. r 1 = Some portion
               \<and> searchMergeMap (c\<lparr>error := False, initial := False\<rparr>) t portion
                   = Inr (ForkJoinPipe b is)
               \<and> i \<in> set is \<and> r2 i = None)"
  shows "stateS (run [Respond r, Respond r2] (search t st svc))
           = stateS svc @ [initialState\<lparr>error := True\<rparr>]
       \<and> error (initialState\<lparr>error := True\<rparr>)
       \<and> pageSize (initialState\<lparr>error := True\<rparr>) = 25"
proof -
  let ?obs = "SearchPipe (c\<lparr>error := False, initial := False\<rparr>) t"
  have "resolve ?obs [r, r2] = Some (initialState\<lparr>error := True\<rparr>)"
    using assms(4)
    by (auto simp: searchSettled_def errorStateObservable_eq forkJoinSettled_def
        storePortions_fails)
  then have "stateS (run (map Respond [r, r2]) (search t st svc))
           = stateS svc @ [initialState\<lparr>error := True\<rparr>]"
    unfolding search_def stateS_nextEvent_run [OF assms(1,2)] project_search [OF assms(3)]
    by simp
  then show ?thesis by (simp add: initialState_def)
qed

text \<open>The failed search on the state with page size 2.\<close>

theorem search_failure_witness:
  "listening resizedSvc \<and> constructorSub resizedSvc = None
   \<and> (\<exists>c. copyOf (last (stateS resizedSvc)) = Inr c)
   \<and> pageSize (last (stateS resizedSvc)) = 2
   \<and> serverDown 1 = None
   \<and> map pageSize (stateS (run [Respond serverDown, Respond serverDown]
                        (search ''x'' (last (stateS resizedSvc)) resizedSvc)))
       = [25, 25, 2, 25]"
proof -
  note f = resizedSvc_facts
  obtain c where c: "copyOf (last (stateS resizedSvc)) = Inr c"
    by (simp add: copyOf_def newState_def resetMemoizedPortions_def portionsCount_def
        validArrayLength_def toNumber_def f)
  have st: "map pageSize (stateS resizedSvc) = [25, 25, 2]"
    by (simp add: resizedSvc_def firstState_eq bootedSvc_eq eval_defs)
  have d: "serverDown 1 = None" by (simp add: serverDown_def)
  have "map pageSize (stateS (run [Respond serverDown, Respond serverDown]
                        (search ''x'' (last (stateS resizedSvc)) resizedSvc)))
       = [25, 25, 2, 25]"
    using search_failure [OF f(1) f(2) c, of serverDown "''x''" serverDown] st d
    by simp
  then show ?thesis using f c d by blast
qed

section \<open>Rejected actions\<close>

text \<open>
  C6, as stated, fails.  While the constructor's search waits, the current state is the
  initial state, and \<open>newPage\<close> and \<open>changePageSize\<close> on it emit nothing.
\<close>

theorem precondition_counterexample:
  "initial (last (stateS constructor)) \<and> \<not> error (last (stateS constructor))
   \<and> stateS (newPage 2 (last (stateS constructor)) constructor) = stateS constructor
   \<and> stateS (changePageSize 10 (last (stateS constructor)) constructor) = stateS constructor
   \<and> length (stateS constructor) = 1"
  by (simp add: constructor_eq newPage_def changePageSize_def nextEvent_def)
    (simp add: initialState_def)

lemma project_rejects:
  assumes "copyOf st = Inr c" and "error st \<or> initial st"
    and "a = NEW_PAGE p \<or> a = CHANGE_PAGE_SIZE z"
  shows "project \<lparr>action = a, state = st\<rparr> = Inr (Of (initialState\<lparr>error := True\<rparr>))"
proof -
  have "error c = error st" "initial c = initial st"
    using assms(1)
    by (auto simp: copyOf_def newState_def resetMemoizedPortions_def split: if_splits)
  then show ?thesis
    using assms
    by (auto simp: project_def priv_newPage_def priv_changePageSize_def errorStateObservable_eq)
qed

text \<open>
  C6, amended.  For an event with action \<open>NEW_PAGE\<close> or \<open>CHANGE_PAGE_SIZE\<close> whose state has
  \<open>error\<close> or \<open>initial\<close> set (a state that \<open>copyOf\<close> can copy): a service that listens
  emits the error state at once, sends no request and waits for nothing; a service that
  does not listen yet drops the event, which sends no request either.
\<close>

theorem precondition_reject:
  assumes "copyOf st = Inr c" and "error st \<or> initial st"
    and "a = NEW_PAGE p \<or> a = CHANGE_PAGE_SIZE z"
  shows "(listening svc \<longrightarrow>
            stateS (nextEvent \<lparr>action = a, state = st\<rparr> svc)
              = stateS svc @ [initialState\<lparr>error := True\<rparr>]
            \<and> error (initialState\<lparr>error := True\<rparr>)
            \<and> requests (nextEvent \<lparr>action = a, state = st\<rparr> svc) = requests svc
            \<and> innerSub (nextEvent \<lparr>action = a, state = st\<rparr> svc) = None)
       \<and> (\<not> listening svc \<longrightarrow> nextEvent \<lparr>action = a, state = st\<rparr> svc = svc)"
  using project_rejects [OF assms] by (simp add: nextEvent_def)

text \<open>Page 2 asked of the initial state, after and before the constructor's search.\<close>

theorem precondition_reject_witness:
  "copyOf initialState = Inr initialState \<and> initial initialState \<and> listening bootedSvc
   \<and> map error (stateS (nextEvent \<lparr>action = NEW_PAGE 2, state = initialState\<rparr> bootedSvc))
       = [False, False, True]
   \<and> requests (nextEvent \<lparr>action = NEW_PAGE 2, state = initialState\<rparr> bootedSvc)
       = requests bootedSvc
   \<and> \<not> listening constructor
   \<and> nextEvent \<lparr>action = NEW_PAGE 2, state = initialState\<rparr> constructor = constructor"
proof -
  have i: "initial initialState" by (simp add: initialState_def)
  then have h: "error initialState \<or> initial initialState" by simp
  have a: "NEW_PAGE 2 = NEW_PAGE 2 \<or> NEW_PAGE 2 = CHANGE_PAGE_SIZE 0" by simp
  have l: "listening bootedSvc" "\<not> listening constructor"
    by (simp_all add: bootedSvc_eq constructor_eq)
  have e: "map error (stateS bootedSvc) = [False, False]"
    by (simp add: bootedSvc_eq initialState_def)
  show ?thesis
    using precondition_reject [OF copyOf_initialState h a, of bootedSvc]
      precondition_reject [OF copyOf_initialState h a, of constructor] i l e
    by (simp add: copyOf_initialState)
qed


section \<open>The clamp of the page\<close>

lemma copyOf_fields:
  assumes "copyOf st = Inr c"
  shows "pageSize c = pageSize st" "searchTerm c = searchTerm st" "page c = page st"
    "count c = count st" "error c = error st" "initial c = initial st"
    "memoizedPortions c = spread (memoizedPortions st)"
  using assms
  by (auto simp: copyOf_def newState_def resetMemoizedPortions_def split: if_splits)

lemma resolve_makeNewStateObservable:
  assumes "makeNewStateObservable b = Inr obs" and "resolve obs rs = Some s'" and "\<not> error s'"
  shows "pageSize s' = pageSize b \<and> page s' = page b \<and> count s' = count b
       \<and> searchTerm s' = searchTerm b \<and> initial s' = initial b"
proof -
  consider "obs = Of b" | "is" where "obs = ForkJoinPipe b is"
    using assms(1)
    by (auto simp: makeNewStateObservable_def split: if_splits sum.splits)
  then show ?thesis
  proof cases
    case 1
    then show ?thesis using assms(2) by simp
  next
    case 2
    then obtain r rs' where rs: "rs = r # rs'" using assms(2) by (cases rs) auto
    show ?thesis
    proof (cases "storePortions b is r")
      case None
      then show ?thesis
        using assms(2,3) 2 rs by (auto simp: forkJoinSettled_def errorStateObservable_eq)
    next
      case (Some s'')
      then have "s' = s''" using assms(2) 2 rs by (simp add: forkJoinSettled_def)
      then show ?thesis using storePortions_fields [OF Some] by simp
    qed
  qed
qed

text \<open>
  C7 (clamp quirk).  For a state that is neither an error state nor the initial one and a
  page \<open>p > pagesCount()\<close>: the state whose portions are resolved is the copy of the state
  with page 1, and every state the action emits, whatever the server answers, has page 1
  (with the page size and the count unchanged) unless a request of a portion failed and
  it is the error state.  So the page is 1 also when \<open>pagesCount()\<close> is not 1.
\<close>

theorem clamp_quirk:
  assumes "listening svc" and "constructorSub svc = None"
    and "\<not> error st" and "\<not> initial st" and "gt p (pagesCount st)"
  shows "project \<lparr>action = NEW_PAGE p, state = st\<rparr>
           = (case copyOf st of
                Inl x \<Rightarrow> Inl x
              | Inr c \<Rightarrow> makeNewStateObservable (c\<lparr>page := Some 1\<rparr>))
       \<and> (\<forall>s' \<in> set (drop (length (stateS svc))
                        (stateS (run (map Respond rs) (newPage p st svc)))).
            \<not> error s' \<longrightarrow> page s' = Some 1 \<and> pageSize s' = pageSize st \<and> count s' = count st)"
proof (cases "copyOf st")
  case (Inl x)
  then have "project \<lparr>action = NEW_PAGE p, state = st\<rparr> = Inl x"
    by (simp add: project_def)
  then show ?thesis
    using Inl stateS_nextEvent_run [OF assms(1,2), of rs "\<lparr>action = NEW_PAGE p, state = st\<rparr>"]
    by (simp add: newPage_def)
next
  case (Inr c)
  note cf = copyOf_fields [OF Inr]
  have pc: "pagesCount c = pagesCount st" by (simp add: pagesCount_def cf)
  have pr: "project \<lparr>action = NEW_PAGE p, state = st\<rparr> = makeNewStateObservable (c\<lparr>page := Some 1\<rparr>)"
    using assms(3,4,5) by (simp add: project_def Inr priv_newPage_def cf pc)
  have "\<forall>s' \<in> set (drop (length (stateS svc))
                        (stateS (run (map Respond rs) (newPage p st svc)))).
            \<not> error s' \<longrightarrow> page s' = Some 1 \<and> pageSize s' = pageSize st \<and> count s' = count st"
  proof (cases "makeNewStateObservable (c\<lparr>page := Some 1\<rparr>)")
    case (Inl x)
    then show ?thesis
      using stateS_nextEvent_run [OF assms(1,2), of rs "\<lparr>action = NEW_PAGE p, state = st\<rparr>"] pr
      by (simp add: newPage_def)
  next
    case obs: (Inr obs)
    show ?thesis
    proof (cases "resolve obs rs")
      case None
      then show ?thesis
        using stateS_nextEvent_run [OF assms(1,2), of rs "\<lparr>action = NEW_PAGE p, state = st\<rparr>"]
          pr obs
        by (simp add: newPage_def)
    next
      case (Some s'')
      have "\<not> error s'' \<longrightarrow> page s'' = Some 1 \<and> pageSize s'' = pageSize st \<and> count s'' = count st"
        using resolve_makeNewStateObservable [OF obs Some] cf by simp
      then show ?thesis
        using stateS_nextEvent_run [OF assms(1,2), of rs "\<lparr>action = NEW_PAGE p, state = st\<rparr>"]
          pr obs Some
        by (simp add: newPage_def)
    qed
  qed
  then show ?thesis using pr Inr by simp
qed

text \<open>Page 7 asked of a state with two pages: the emitted state has page 1.\<close>

theorem clamp_quirk_witness:
  "listening resizedSvc \<and> constructorSub resizedSvc = None
   \<and> pagesCount (last (stateS resizedSvc)) = Fin 2 \<and> gt 7 (pagesCount (last (stateS resizedSvc)))
   \<and> map page (stateS resizedSvc) = [None, Some 1, Some 1]
   \<and> map page (stateS (run (map Respond []) (newPage 7 (last (stateS resizedSvc)) resizedSvc)))
       = [None, Some 1, Some 1, Some 1]
   \<and> \<not> error (last (stateS (run (map Respond []) (newPage 7 (last (stateS resizedSvc)) resizedSvc))))"
proof -
  note f = resizedSvc_facts
  have pc: "pagesCount (last (stateS resizedSvc)) = Fin 2"
    by (simp add: pagesCount_def ceilDiv_def toNumber_def f)
  then have g: "gt 7 (pagesCount (last (stateS resizedSvc)))" by simp
  have e: "map page (stateS resizedSvc) = [None, Some 1, Some 1]"
    "map page (stateS (run (map Respond []) (newPage 7 (last (stateS resizedSvc)) resizedSvc)))
       = [None, Some 1, Some 1, Some 1]"
    "\<not> error (last (stateS (run (map Respond []) (newPage 7 (last (stateS resizedSvc)) resizedSvc))))"
    by (simp_all add: resizedSvc_def firstState_eq bootedSvc_eq eval_defs)
  show ?thesis
    using clamp_quirk [OF f(1) f(2) f(8) f(9) g, of "[]"] f(1,2) pc g e by blast
qed


section \<open>A new search wipes the memoized portions\<close>

lemma requestsDuring_Of: "requestsDuring (Of s) rs = []"
  by (induction rs) simp_all

lemma requests_subscribeInner_run:
  assumes "constructorSub svc = None"
  shows "requests (run (map Respond rs) (subscribeInner obs (svc\<lparr>innerSub := None\<rparr>)))
           = requests svc @ requestsDuring obs rs"
  using assms
proof (induction rs arbitrary: obs svc)
  case Nil
  then show ?case by (simp add: run_Nil subscribeInner_effect)
next
  case (Cons r rs)
  show ?case
  proof (cases obs)
    case (Of s)
    have "run (map Respond (r # rs)) (svc\<lparr>stateS := stateS svc @ [s], innerSub := None\<rparr>)
            = svc\<lparr>stateS := stateS svc @ [s], innerSub := None\<rparr>"
      by (rule run_responses_idle) (simp_all add: Cons.prems)
    then show ?thesis
      using Of by (simp add: requestsDuring_Of)
  next
    case (SearchPipe st t)
    let ?svc = "svc\<lparr>requests := requests svc @ requestsOf obs\<rparr>"
    have "requests (run (map Respond rs) (subscribeInner (settle obs r) (?svc\<lparr>innerSub := None\<rparr>)))
            = requests ?svc @ requestsDuring (settle obs r) rs"
      by (rule Cons.IH) (simp add: Cons.prems)
    then show ?thesis using SearchPipe Cons.prems by (simp add: run_Cons respond_def)
  next
    case (ForkJoinPipe b "is")
    let ?svc = "svc\<lparr>requests := requests svc @ requestsOf obs\<rparr>"
    have "requests (run (map Respond rs) (subscribeInner (settle obs r) (?svc\<lparr>innerSub := None\<rparr>)))
            = requests ?svc @ requestsDuring (settle obs r) rs"
      by (rule Cons.IH) (simp add: Cons.prems)
    then show ?thesis using ForkJoinPipe Cons.prems by (simp add: run_Cons respond_def)
  qed
qed

lemma searchMergeMap_memo:
  "searchMergeMap (s\<lparr>memoizedPortions := m\<rparr>) t portion = searchMergeMap s t portion"
  by (simp add: searchMergeMap_def resetMemoizedPortions_def portionsCount_def)

lemma settle_SearchPipe_memo:
  "settle (SearchPipe (s\<lparr>memoizedPortions := m\<rparr>) t) r = settle (SearchPipe s t) r"
  by (simp add: searchSettled_def searchMergeMap_memo split: option.splits)

lemma resolve_SearchPipe_memo:
  "resolve (SearchPipe (s\<lparr>memoizedPortions := m\<rparr>) t) rs = resolve (SearchPipe s t) rs"
  by (cases rs) (simp_all add: settle_SearchPipe_memo del: settle.simps)

lemma requestsDuring_SearchPipe_memo:
  "requestsDuring (SearchPipe (s\<lparr>memoizedPortions := m\<rparr>) t) rs = requestsDuring (SearchPipe s t) rs"
  by (cases rs) (simp_all add: settle_SearchPipe_memo del: settle.simps)

lemma storePortions_origin:
  assumes "storePortions b is r = Some s'" and "memoizedPortions s' i = Some ps"
  shows "memoizedPortions b i = Some ps \<or> (\<exists>portion. r i = Some portion \<and> results portion = ps)"
  using assms
proof (induction "is" arbitrary: b)
  case Nil
  then show ?case by simp
next
  case (Cons j js)
  then obtain p where p: "r j = Some p" by (auto split: option.splits)
  let ?b = "b\<lparr>memoizedPortions := (memoizedPortions b)(j \<mapsto> results p)\<rparr>"
  have "storePortions ?b js r = Some s'" using Cons.prems(1) p by simp
  then have "memoizedPortions ?b i = Some ps \<or> (\<exists>portion. r i = Some portion \<and> results portion = ps)"
    using Cons.prems(2) by (rule Cons.IH)
  then show ?case using p by (auto split: if_splits)
qed

text \<open>What \<open>mergeMap\<close> hands to \<open>makeNewStateObservable\<close> holds portion 1 of the answer at most.\<close>

lemma searchMergeMap_base:
  assumes "searchMergeMap st t portion = Inr obs"
  shows "\<exists>b. makeNewStateObservable b = Inr obs \<and> searchTerm b = Some t
           \<and> (\<forall>i ps. memoizedPortions b i = Some ps \<longrightarrow> i = 1 \<and> ps = results portion)"
  using assms
  by (auto simp: searchMergeMap_def resetMemoizedPortions_def split: if_splits)

lemma makeNewStateObservable_cases:
  assumes "makeNewStateObservable b = Inr obs"
  shows "obs = Of b \<or> (\<exists>is. obs = ForkJoinPipe b is)"
  using assms by (auto simp: makeNewStateObservable_def split: if_splits sum.splits)

lemma resolve_search_origin:
  assumes "resolve (SearchPipe st t) rs = Some s'" and "\<not> error s'"
  shows "searchTerm s' = Some t
       \<and> (\<forall>i ps. memoizedPortions s' i = Some ps
            \<longrightarrow> (\<exists>r \<in> set rs. \<exists>portion. r i = Some portion \<and> results portion = ps))"
proof -
  obtain r1 rest where rs: "rs = r1 # rest" using assms(1) by (cases rs) auto
  have e: "error (initialState\<lparr>error := True\<rparr>)" by simp
  have res: "resolve (searchSettled st t r1) rest = Some s'" using assms(1) rs by simp
  then obtain p1 obs where p1: "r1 1 = Some p1" and obs: "searchMergeMap st t p1 = Inr obs"
    using assms(2) e
    by (auto simp: searchSettled_def errorStateObservable_eq split: option.splits sum.splits)
  have res': "resolve obs rest = Some s'" using res p1 obs by (simp add: searchSettled_def)
  obtain b where b: "makeNewStateObservable b = Inr obs" "searchTerm b = Some t"
    and bm: "\<forall>i ps. memoizedPortions b i = Some ps \<longrightarrow> i = 1 \<and> ps = results p1"
    using searchMergeMap_base [OF obs] by blast
  from makeNewStateObservable_cases [OF b(1)] show ?thesis
  proof
    assume "obs = Of b"
    then have "s' = b" using res' by simp
    then show ?thesis using b(2) bm p1 rs by auto
  next
    assume "\<exists>is. obs = ForkJoinPipe b is"
    then obtain "is" where fj: "obs = ForkJoinPipe b is" by blast
    obtain r2 rest' where rest: "rest = r2 # rest'" using res' fj by (cases rest) auto
    have "resolve (forkJoinSettled b is r2) rest' = Some s'" using res' fj rest by simp
    then have sp: "storePortions b is r2 = Some s'"
      using assms(2) e
      by (auto simp: forkJoinSettled_def errorStateObservable_eq split: option.splits)
    have "searchTerm s' = Some t" using storePortions_fields [OF sp] b(2) by simp
    moreover have "\<forall>i ps. memoizedPortions s' i = Some ps
            \<longrightarrow> (\<exists>r \<in> set rs. \<exists>portion. r i = Some portion \<and> results portion = ps)"
    proof (intro allI impI)
      fix i ps
      assume "memoizedPortions s' i = Some ps"
      from storePortions_origin [OF sp this]
      show "\<exists>r \<in> set rs. \<exists>portion. r i = Some portion \<and> results portion = ps"
        using bm p1 rs rest by auto
    qed
    ultimately show ?thesis by simp
  qed
qed

lemma requestsDuring_ForkJoinPipe:
  "\<forall>q \<in> set (requestsDuring (ForkJoinPipe b is) rs). snd q = searchTerm b"
proof (cases rs)
  case Nil
  then show ?thesis by auto
next
  case (Cons r rest)
  have "\<exists>s. forkJoinSettled b is r = Of s"
    by (cases "storePortions b is r") (simp_all add: forkJoinSettled_def errorStateObservable_eq)
  then show ?thesis using Cons by (auto simp: requestsDuring_Of)
qed

lemma requestsDuring_search_term:
  "\<forall>q \<in> set (requestsDuring (SearchPipe st t) rs). snd q = Some t"
proof (cases rs)
  case Nil
  then show ?thesis by simp
next
  case (Cons r1 rest)
  have "\<forall>q \<in> set (requestsDuring (searchSettled st t r1) rest). snd q = Some t"
  proof (cases "r1 1")
    case None
    then show ?thesis by (simp add: searchSettled_def errorStateObservable_eq requestsDuring_Of)
  next
    case (Some p1)
    show ?thesis
    proof (cases "searchMergeMap st t p1")
      case (Inl x)
      then show ?thesis
        using Some by (simp add: searchSettled_def errorStateObservable_eq requestsDuring_Of)
    next
      case (Inr obs)
      obtain b where b: "makeNewStateObservable b = Inr obs" "searchTerm b = Some t"
        using searchMergeMap_base [OF Inr] by blast
      have "\<forall>q \<in> set (requestsDuring obs rest). snd q = Some t"
        using makeNewStateObservable_cases [OF b(1)] requestsDuring_ForkJoinPipe [of b _ rest] b(2)
        by (auto simp: requestsDuring_Of)
      then show ?thesis using Some Inr by (simp add: searchSettled_def)
    qed
  qed
  then show ?thesis using Cons by simp
qed

lemma copyOf_memo:
  assumes "copyOf st = Inr c"
  shows "copyOf (st\<lparr>memoizedPortions := m\<rparr>) = Inr (c\<lparr>memoizedPortions := spread m\<rparr>)"
  using assms
  by (auto simp: copyOf_def newState_def resetMemoizedPortions_def portionsCount_def
      split: if_splits)

text \<open>
  C8 (cache invalidation on a new term).  A search for \<open>t\<close> applied to a state \<open>st\<close>, which
  may hold the portions memoized for another term: what the service emits and requests
  is the same whatever portions \<open>st\<close> has memoized; every request the search sends carries
  the term \<open>t\<close>; and in the state it emits, if that is not the error state, the term is
  \<open>t\<close> and every memoized portion is the result of one of the server's answers to these
  requests.  No portion memoized before is reused.
\<close>

theorem new_search_wipes_cache:
  assumes "listening svc" and "constructorSub svc = None" and "copyOf st = Inr c"
  shows "stateS (run (map Respond rs) (search t (st\<lparr>memoizedPortions := m\<rparr>) svc))
           = stateS (run (map Respond rs) (search t st svc))
       \<and> requests (run (map Respond rs) (search t (st\<lparr>memoizedPortions := m\<rparr>) svc))
           = requests (run (map Respond rs) (search t st svc))
       \<and> (\<forall>q \<in> set (drop (length (requests svc)) (requests (run (map Respond rs) (search t st svc)))).
            snd q = Some t)
       \<and> (\<forall>s' \<in> set (drop (length (stateS svc)) (stateS (run (map Respond rs) (search t st svc)))).
            \<not> error s' \<longrightarrow>
              searchTerm s' = Some t
              \<and> (\<forall>i ps. memoizedPortions s' i = Some ps
                   \<longrightarrow> (\<exists>r \<in> set rs. \<exists>portion. r i = Some portion \<and> results portion = ps)))"
proof -
  let ?c = "c\<lparr>error := False, initial := False\<rparr>"
  let ?obs = "SearchPipe ?c t"
  have n: "search t st svc = subscribeInner ?obs (svc\<lparr>innerSub := None\<rparr>)"
    using assms(1) by (simp add: search_def nextEvent_def project_search [OF assms(3)])
  have n': "search t (st\<lparr>memoizedPortions := m\<rparr>) svc
              = subscribeInner (SearchPipe (?c\<lparr>memoizedPortions := spread m\<rparr>) t) (svc\<lparr>innerSub := None\<rparr>)"
    using assms(1)
    by (simp add: search_def nextEvent_def project_search [OF copyOf_memo [OF assms(3)]])
  note st = stateS_subscribeInner_run [OF assms(2)] and rq = requests_subscribeInner_run [OF assms(2)]
  have a: "stateS (run (map Respond rs) (search t (st\<lparr>memoizedPortions := m\<rparr>) svc))
           = stateS (run (map Respond rs) (search t st svc))"
    unfolding n n' st by (simp only: resolve_SearchPipe_memo)
  have b: "requests (run (map Respond rs) (search t (st\<lparr>memoizedPortions := m\<rparr>) svc))
           = requests (run (map Respond rs) (search t st svc))"
    unfolding n n' rq by (simp only: requestsDuring_SearchPipe_memo)
  have c: "\<forall>q \<in> set (drop (length (requests svc)) (requests (run (map Respond rs) (search t st svc)))).
            snd q = Some t"
    unfolding n rq using requestsDuring_search_term [of ?c t rs] by simp
  have d: "\<forall>s' \<in> set (drop (length (stateS svc)) (stateS (run (map Respond rs) (search t st svc)))).
            \<not> error s' \<longrightarrow>
              searchTerm s' = Some t
              \<and> (\<forall>i ps. memoizedPortions s' i = Some ps
                   \<longrightarrow> (\<exists>r \<in> set rs. \<exists>portion. r i = Some portion \<and> results portion = ps))"
  proof (cases "resolve ?obs rs")
    case None
    then show ?thesis unfolding n st by simp
  next
    case (Some s'')
    then show ?thesis
      unfolding n st using resolve_search_origin [OF Some] by simp
  qed
  show ?thesis using a b c d by (intro conjI)
qed


text \<open>
  A search for \<open>x\<close> on the state that holds portion 1 of the empty term: portion 1 of the
  new state is the one planet the server answers with.
\<close>

theorem new_search_wipes_cache_witness:
  "listening bootedSvc \<and> constructorSub bootedSvc = None
   \<and> (\<exists>c. copyOf firstState = Inr c)
   \<and> searchTerm firstState = Some []
   \<and> memoizedPortions firstState 1 = Some [''Alderaan'', ''Hoth'', ''Naboo'']
   \<and> stateS (run (map Respond [onePlanet]) (search ''x'' (firstState\<lparr>memoizedPortions := Map.empty\<rparr>) bootedSvc))
       = stateS (run (map Respond [onePlanet]) (search ''x'' firstState bootedSvc))
   \<and> requests (run (map Respond [onePlanet]) (search ''x'' firstState bootedSvc))
       = [(1, Some []), (1, Some ''x'')]
   \<and> map searchTerm (stateS (run (map Respond [onePlanet]) (search ''x'' firstState bootedSvc)))
       = [None, Some [], Some ''x'']
   \<and> memoizedPortions (last (stateS (run (map Respond [onePlanet]) (search ''x'' firstState bootedSvc)))) 1
       = Some [''Xandar'']"
proof -
  have l: "listening bootedSvc" "constructorSub bootedSvc = None"
    by (simp_all add: bootedSvc_eq)
  obtain c where c: "copyOf firstState = Inr c"
    by (simp add: firstState_eq copyOf_def newState_def resetMemoizedPortions_def
        portionsCount_def validArrayLength_def toNumber_def)
  have f: "searchTerm firstState = Some []"
    "memoizedPortions firstState 1 = Some [''Alderaan'', ''Hoth'', ''Naboo'']"
    by (simp_all add: firstState_eq)
  have e: "requests (run (map Respond [onePlanet]) (search ''x'' firstState bootedSvc))
       = [(1, Some []), (1, Some ''x'')]"
    "map searchTerm (stateS (run (map Respond [onePlanet]) (search ''x'' firstState bootedSvc)))
       = [None, Some [], Some ''x'']"
    "memoizedPortions (last (stateS (run (map Respond [onePlanet]) (search ''x'' firstState bootedSvc)))) 1
       = Some [''Xandar'']"
    by (simp_all add: firstState_eq bootedSvc_eq onePlanet_def eval_defs)
  show ?thesis
    using new_search_wipes_cache [OF l c, of "[onePlanet]" "''x''" Map.empty] l c f e
    by blast
qed


section \<open>Memoized pages need no request\<close>

lemma pagesCount_page:
  assumes "0 < pageSize st" and "1 \<le> p" and "\<not> gt p (pagesCount st)"
  shows "0 < toNumber (count st)" and "count st \<noteq> Some 0"
proof -
  have le: "p \<le> - ((- toNumber (count st)) div pageSize st)"
    using assms by (simp add: pagesCount_def ceilDiv_def)
  have "pageSize st * (p - 1) < toNumber (count st)"
    using page_below_count [OF assms(1) le] .
  moreover have "0 \<le> pageSize st * (p - 1)" using assms by simp
  ultimately show "0 < toNumber (count st)" by linarith
  then show "count st \<noteq> Some 0" by (auto simp: toNumber_def)
qed

text \<open>
  C9 (idempotent cache hit).  For a state that is neither an error state nor the initial
  one, with a positive page size, and a page \<open>p\<close> between 1 and \<open>pagesCount()\<close> all of whose
  portions are memoized in the state: asking a listening service for page \<open>p\<close> sends no
  request, leaves nothing to wait for, and emits at once the copy of the state with page
  \<open>p\<close>, whose memoized portions are those of the state and whose \<open>planetList()\<close> returns a
  list.
\<close>

theorem cache_hit_no_fetch:
  assumes "listening svc" and "copyOf st = Inr c" and "\<not> error st" and "\<not> initial st"
    and "0 < pageSize st" and "1 \<le> p" and "\<not> gt p (pagesCount st)"
    and "\<forall>i. pageSize st * (p - 1) div 10 + 1 \<le> i
             \<and> i \<le> (min (pageSize st * p) (toNumber (count st)) - 1) div 10 + 1
           \<longrightarrow> memoizedPortions st i \<noteq> None"
  shows "requests (newPage p st svc) = requests svc
       \<and> innerSub (newPage p st svc) = None
       \<and> stateS (newPage p st svc) = stateS svc @ [c\<lparr>page := Some p\<rparr>]
       \<and> memoizedPortions (c\<lparr>page := Some p\<rparr>) = spread (memoizedPortions st)
       \<and> (\<exists>pl. planetList (c\<lparr>page := Some p\<rparr>) = Inr pl)"
proof -
  let ?b = "c\<lparr>page := Some p\<rparr>"
  let ?lo = "pageSize st * (p - 1) div 10 + 1"
  let ?hi = "(min (pageSize st * p) (toNumber (count st)) - 1) div 10 + 1"
  note cf = copyOf_fields [OF assms(2)]
  note pos = pagesCount_page [OF assms(5,6,7)]
  have nz: "count ?b \<noteq> Some 0" using pos(2) by (simp add: cf)
  have lo: "loPortion ?b = ?lo" and hi: "hiPortion ?b = ?hi"
    by (simp_all add: loPortion_def hiPortion_def cf toNumber_def)
  have valid: "validArrayLength (portionsCount st + 1)"
    using assms(2) by (auto simp: copyOf_def newState_def resetMemoizedPortions_def
        portionsCount_def split: if_splits)
  have "0 \<le> pageSize st * (p - 1)" using assms(5,6) by simp
  then have lo1: "1 \<le> ?lo" by (simp add: pos_imp_zdiv_nonneg_iff)
  have "?hi \<le> portionsCount st"
    unfolding portionsCount_def by (rule ceil10_mono) simp
  then have hi1: "?hi < 4294967295" using valid by (simp add: validArrayLength_def)
  have memo: "\<forall>i. ?lo \<le> i \<and> i \<le> ?hi \<longrightarrow> memoizedPortions ?b i \<noteq> None"
    using assms(8) lo1 hi1 by (auto simp: cf spread_def arrayIndex_def)
  then have none: "portionIndexes ?b ?lo ?hi = []"
    by (auto simp: portionIndexes_def filter_empty_conv)
  have mk: "makeNewStateObservable ?b = Inr (Of ?b)"
    using nz none portion_bounds [OF nz] by (simp add: makeNewStateObservable_def lo hi)
  have pc: "pagesCount c = pagesCount st" by (simp add: pagesCount_def cf)
  have pr: "project \<lparr>action = NEW_PAGE p, state = st\<rparr> = Inr (Of ?b)"
    using assms(3,4,7) mk by (simp add: project_def assms(2) priv_newPage_def cf pc)
  have "resolved ?b" using memo by (simp add: resolved_def lo hi)
  then have pl: "\<exists>pl. planetList ?b = Inr pl" by (rule planetList_resolved)
  show ?thesis
    using assms(1) pr pl by (simp add: newPage_def nextEvent_def cf)
qed

text \<open>Page 1 asked again of the state with page size 2, whose portion 1 is memoized.\<close>

theorem cache_hit_no_fetch_witness:
  "listening resizedSvc \<and> (\<exists>c. copyOf (last (stateS resizedSvc)) = Inr c)
   \<and> page (last (stateS resizedSvc)) = Some 1
   \<and> requests (newPage 1 (last (stateS resizedSvc)) resizedSvc) = requests resizedSvc
   \<and> innerSub (newPage 1 (last (stateS resizedSvc)) resizedSvc) = None
   \<and> length (stateS (newPage 1 (last (stateS resizedSvc)) resizedSvc)) = 4
   \<and> planetList (last (stateS (newPage 1 (last (stateS resizedSvc)) resizedSvc)))
       = Inr [''Alderaan'', ''Hoth'']"
proof -
  note f = resizedSvc_facts
  let ?st = "last (stateS resizedSvc)"
  obtain c where c: "copyOf ?st = Inr c"
    by (simp add: copyOf_def newState_def resetMemoizedPortions_def portionsCount_def
        validArrayLength_def toNumber_def f)
  have ps: "0 < pageSize ?st" by (simp add: f)
  have g: "\<not> gt 1 (pagesCount ?st)" by (simp add: pagesCount_def ceilDiv_def toNumber_def f)
  have m: "memoizedPortions ?st 1 \<noteq> None"
    by (simp add: resizedSvc_def firstState_eq bootedSvc_eq eval_defs)
  have cached: "\<forall>i. pageSize ?st * (1 - 1) div 10 + 1 \<le> i
             \<and> i \<le> (min (pageSize ?st * 1) (toNumber (count ?st)) - 1) div 10 + 1
           \<longrightarrow> memoizedPortions ?st i \<noteq> None"
    using m by (auto simp: f toNumber_def)
  have pl: "planetList (last (stateS (newPage 1 ?st resizedSvc))) = Inr [''Alderaan'', ''Hoth'']"
    by (simp add: resizedSvc_def firstState_eq bootedSvc_eq eval_defs planetList_def slice_def)
  have "length (stateS (newPage 1 ?st resizedSvc)) = 4"
    using cache_hit_no_fetch [OF f(1) c f(8) f(9) ps _ g cached] f(4) by simp
  then show ?thesis
    using cache_hit_no_fetch [OF f(1) c f(8) f(9) ps _ g cached] f c pl
    by auto
qed


section \<open>Events before the first state\<close>







end
